theory Spec2Isabelle
  imports Main "HOL-Library.Word"
begin

section \<open>Data model of package api (member.go)\<close>

text \<open>
  \<^verbatim>\<open>discord.Snowflake\<close> is a 64-bit identifier and Go's \<^verbatim>\<open>uint\<close> is taken at
  its 64-bit width. The code of \<^verbatim>\<open>member.go\<close> only copies snowflakes; it reads a
  single field of \<^verbatim>\<open>discord.Member\<close>, namely \<^verbatim>\<open>User.ID\<close>.
\<close>

type_synonym snowflake = "64 word"
type_synonym uint = "64 word"

record user =
  ID :: snowflake

record member =
  User :: user

text \<open>An error value handed back by the shared HTTP client.\<close>

datatype error = RequestError string

text \<open>
  The anonymous \<^verbatim>\<open>param\<close> struct of \<^verbatim>\<open>membersAfter\<close>, which
  \<^verbatim>\<open>httputil.WithSchema\<close> turns into the query string.
\<close>

record param =
  After :: snowflake
  Limit :: uint

text \<open>
  \<^verbatim>\<open>c.RequestJSON(&mems, "GET", EndpointGuilds+guildID.String()+"/members", ...)\<close>:
  the client is the only collaborator. It is a function of its own state \<open>'s\<close>, the
  guild of the path and the query parameters, and gives back what Go returns as
  \<^verbatim>\<open>(mems, err)\<close> together with its new state.
\<close>

type_synonym 's executor =
  "'s \<Rightarrow> snowflake \<Rightarrow> param \<Rightarrow> (member list \<times> error option) \<times> 's"

section \<open>The single-page primitive \<^verbatim>\<open>membersAfter\<close>\<close>

definition membersAfter ::
  "'s executor \<Rightarrow> 's \<Rightarrow> snowflake \<Rightarrow> snowflake \<Rightarrow> uint \<Rightarrow> (member list \<times> error option) \<times> 's"
where
  "membersAfter exec c guildID aft lim =
     (let lim = (if lim = 0 then 0 else if lim > 1000 then 1000 else lim)
      in exec c guildID \<lparr>After = aft, Limit = lim\<rparr>)"

section \<open>The paginating loop \<^verbatim>\<open>MembersAfter\<close>\<close>

definition hardLimit :: nat where
  "hardLimit = 1000"

text \<open>The variables the loop assigns: \<^verbatim>\<open>limit\<close>, \<^verbatim>\<open>after\<close>, \<^verbatim>\<open>mems\<close>, and the client.\<close>

record 's vars =
  limit :: uint
  after :: snowflake
  mems :: "member list"
  client :: 's

text \<open>
  Lines 44 to 50: \<^verbatim>\<open>fetch\<close> starts every iteration at \<^verbatim>\<open>uint(hardLimit)\<close>; a
  positive \<^verbatim>\<open>limit\<close> caps it and is reduced by it. The result is the pair
  \<^verbatim>\<open>(fetch, limit)\<close> after line 50.
\<close>

definition next_fetch :: "uint \<Rightarrow> uint \<times> uint" where
  "next_fetch lim =
     (let fetch = of_nat hardLimit in
      if lim > 0 then
        (let fetch = (if fetch > lim then lim else fetch) in (fetch, lim - fetch))
      else (fetch, lim))"

text \<open>
  How one pass through the loop body ends: by \<^verbatim>\<open>return mems, err\<close> (line 54), by
  \<^verbatim>\<open>break\<close> (line 60), or by falling through to the next test of the loop condition.
\<close>

datatype 's iteration =
  Failed "member list" error 's
| Break "member list" 's
| Continue "'s vars"

definition body :: "'s executor \<Rightarrow> snowflake \<Rightarrow> 's vars \<Rightarrow> 's iteration" where
  "body exec guildID st =
     (case next_fetch (limit st) of (fetch, lim') \<Rightarrow>
      (case membersAfter exec (client st) guildID (after st) fetch of
         ((m, Some err), c') \<Rightarrow> Failed (mems st) err c'
       | ((m, None), c') \<Rightarrow>
           (let mems' = mems st @ m in
            if length mems' < hardLimit then Break mems' c'
            else Continue \<lparr>limit = lim', after = ID (User (mems' ! (hardLimit - 1))),
                           mems = mems', client = c'\<rparr>)))"

text \<open>
  The loop itself. It need not end, so its result is an option: \<open>None\<close> is a run that
  never returns.
\<close>

partial_function (option) loop ::
  "'s executor \<Rightarrow> snowflake \<Rightarrow> bool \<Rightarrow> 's vars \<Rightarrow> ((member list \<times> error option) \<times> 's) option"
where
  "loop exec guildID unlimited st =
     (if limit st > 0 \<or> unlimited then
        (case body exec guildID st of
           Failed ms err c' \<Rightarrow> Some ((ms, Some err), c')
         | Break ms c' \<Rightarrow> Some ((ms, None), c')
         | Continue st' \<Rightarrow> loop exec guildID unlimited st')
      else Some ((mems st, None), client st))"

definition MembersAfter ::
  "'s executor \<Rightarrow> 's \<Rightarrow> snowflake \<Rightarrow> snowflake \<Rightarrow> uint \<Rightarrow> ((member list \<times> error option) \<times> 's) option"
where
  "MembersAfter exec c guildID aft lim =
     loop exec guildID (lim = 0) \<lparr>limit = lim, after = aft, mems = [], client = c\<rparr>"

definition Members ::
  "'s executor \<Rightarrow> 's \<Rightarrow> snowflake \<Rightarrow> uint \<Rightarrow> ((member list \<times> error option) \<times> 's) option"
where
  "Members exec c guildID lim = MembersAfter exec c guildID 0 lim"


text \<open>
  One step of the loop seen from outside: \<open>reach exec guildID unlimited st0 st\<close> holds when
  the run started with the variables \<open>st0\<close> arrives at the loop condition with the
  variables \<open>st\<close>.
\<close>

inductive reach :: "'s executor \<Rightarrow> snowflake \<Rightarrow> bool \<Rightarrow> 's vars \<Rightarrow> 's vars \<Rightarrow> bool"
  for exec :: "'s executor" and guildID :: snowflake and unlimited :: bool and st0 :: "'s vars"
where
  start: "reach exec guildID unlimited st0 st0"
| step: "reach exec guildID unlimited st0 st \<Longrightarrow> 0 < limit st \<or> unlimited \<Longrightarrow>
         body exec guildID st = Continue st' \<Longrightarrow> reach exec guildID unlimited st0 st'"

text \<open>The state of the client when an iteration is over.\<close>

fun client_after :: "'s iteration \<Rightarrow> 's" where
  "client_after (Failed ms err c) = c"
| "client_after (Break ms c) = c"
| "client_after (Continue st) = client st"

section \<open>\<^verbatim>\<open>Ban\<close>\<close>

text \<open>
  \<^verbatim>\<open>option.Uint\<close> and \<^verbatim>\<open>option.String\<close> are declared in package
  \<^verbatim>\<open>utils/json/option\<close>, outside these files; \<^verbatim>\<open>Ban\<close> dereferences
  \<^verbatim>\<open>data.DeleteDays\<close>, so the type is a pointer, here an option with \<open>None\<close> for
  \<^verbatim>\<open>nil\<close>. Dereferencing \<^verbatim>\<open>nil\<close> panics.
\<close>

record BanData =
  DeleteDays :: "uint option"
  Reason :: "string option"

datatype panic = NilPointerDereference

text \<open>
  \<^verbatim>\<open>c.FastRequest("PUT", EndpointGuilds+guildID.String()+"/bans/"+userID.String(),
  httputil.WithSchema(c, data))\<close>: the client gets the two identifiers of the path and
  the data of the query string, and returns an error or \<^verbatim>\<open>nil\<close>.
\<close>

type_synonym 's ban_executor =
  "'s \<Rightarrow> snowflake \<Rightarrow> snowflake \<Rightarrow> BanData \<Rightarrow> error option \<times> 's"

definition Ban ::
  "'s ban_executor \<Rightarrow> 's \<Rightarrow> snowflake \<Rightarrow> snowflake \<Rightarrow> BanData \<Rightarrow> panic + (error option \<times> 's)"
where
  "Ban put c guildID userID data =
     (case DeleteDays data of
        None \<Rightarrow> Inl NilPointerDereference
      | Some d \<Rightarrow>
          (let data = (if d > 7 then data\<lparr>DeleteDays := Some 7\<rparr> else data)
           in Inr (put c guildID userID data)))"

section \<open>The environment: clients to run the code against\<close>

text \<open>A client that records every request it is sent, in order, around any other client.\<close>

type_synonym request = "snowflake \<times> param"

definition logged :: "'s executor \<Rightarrow> ('s \<times> request list) executor" where
  "logged exec c guildID p =
     (case exec (fst c) guildID p of (r, s') \<Rightarrow> (r, (s', snd c @ [(guildID, p)])))"

text \<open>
  A backing source holding the records \<open>recs\<close>: a page is made of the records strictly
  after the cursor, at most the requested count, and never fails.
\<close>

definition source :: "member list \<Rightarrow> unit executor" where
  "source recs c guildID p =
     ((take (unat (Limit p)) (filter (\<lambda>m. After p < ID (User m)) recs), None), c)"

text \<open>The records with the identifiers \<open>i, \<dots>, j - 1\<close>, in ascending order.\<close>

definition records :: "nat \<Rightarrow> nat \<Rightarrow> member list" where
  "records i j = map (\<lambda>k. \<lparr>User = \<lparr>ID = of_nat k\<rparr>\<rparr>) [i..<j]"

text \<open>A client whose successful pages hold at most the requested number of records.\<close>

definition honours_limit :: "'s executor \<Rightarrow> bool" where
  "honours_limit exec \<longleftrightarrow>
     (\<forall>c g p ms c'. exec c g p = ((ms, None), c') \<longrightarrow> length ms \<le> unat (Limit p))"

text \<open>
  A client that records every exchange, the request with the answer it gave, in order.
\<close>

type_synonym exchange = "request \<times> (member list \<times> error option)"

definition recorded :: "'s executor \<Rightarrow> ('s \<times> exchange list) executor" where
  "recorded exec c guildID p =
     (case exec (fst c) guildID p of (r, s') \<Rightarrow> (r, (s', snd c @ [((guildID, p), r)])))"

text \<open>The records of the pages of a list of exchanges, in the order they were returned.\<close>

definition pages :: "exchange list \<Rightarrow> member list" where
  "pages xs = concat (map (\<lambda>x. fst (snd x)) xs)"

text \<open>
  The loop stops after the iteration it enters with the variables \<open>st\<close>: the run from
  there returns, and the recording client has received one request, that of this
  iteration, and no further one.
\<close>

definition stops_after ::
  "'s executor \<Rightarrow> snowflake \<Rightarrow> bool \<Rightarrow> ('s \<times> request list) vars \<Rightarrow> bool" where
  "stops_after exec guildID unlimited st \<longleftrightarrow>
     (\<exists>r c'. loop (logged exec) guildID unlimited st = Some (r, c')
        \<and> length (snd c') = Suc (length (snd (client st))))"

text \<open>
  A client that answers its first \<open>k\<close> requests with the page \<open>page\<close> and fails with
  \<open>err\<close> from then on; its state counts the requests.
\<close>

definition fails_from :: "nat \<Rightarrow> member list \<Rightarrow> error \<Rightarrow> nat executor" where
  "fails_from k page err c guildID p =
     (if c < k then ((page, None), Suc c) else (([], Some err), Suc c))"

text \<open>
  The variables of an unlimited run whose cursor is the identifier 1000 read at index
  \<^verbatim>\<open>hardLimit-1\<close>: line 63 assigns the same cursor again.
\<close>

definition stuck :: "'s vars \<Rightarrow> bool" where
  "stuck st \<longleftrightarrow> limit st = 0 \<and> after st = 1000 \<and> 1000 \<le> length (mems st)
     \<and> ID (User (mems st ! 999)) = 1000"

section \<open>Basic facts\<close>

lemma next_fetch_zero: "next_fetch 0 = (1000, 0)"
  by (simp add: next_fetch_def hardLimit_def)

lemma next_fetch_pos: "0 < lim \<Longrightarrow> next_fetch lim = (min lim 1000, lim - min lim 1000)"
  by (auto simp add: next_fetch_def hardLimit_def Let_def min_def)

lemma membersAfter_small:
  "n \<le> 1000 \<Longrightarrow> membersAfter exec c g a n = exec c g \<lparr>After = a, Limit = n\<rparr>"
  by (auto simp add: membersAfter_def Let_def)

lemma loop_exit:
  "\<not> (0 < limit st \<or> u) \<Longrightarrow> loop exec g u st = Some ((mems st, None), client st)"
  by (subst loop.simps) simp

lemma loop_Failed:
  "0 < limit st \<or> u \<Longrightarrow> body exec g st = Failed ms err c' \<Longrightarrow>
   loop exec g u st = Some ((ms, Some err), c')"
  by (subst loop.simps) simp

lemma loop_Break:
  "0 < limit st \<or> u \<Longrightarrow> body exec g st = Break ms c' \<Longrightarrow>
   loop exec g u st = Some ((ms, None), c')"
  by (subst loop.simps) simp

lemma loop_Continue:
  "0 < limit st \<or> u \<Longrightarrow> body exec g st = Continue st' \<Longrightarrow>
   loop exec g u st = loop exec g u st'"
  by (subst loop.simps) simp

lemma reach_loop: "reach exec g u st0 st \<Longrightarrow> loop exec g u st0 = loop exec g u st"
  by (induction rule: reach.induct) (simp_all add: loop_Continue)

lemma body_error:
  "membersAfter exec (client st) g (after st) (fst (next_fetch (limit st))) = ((m, Some err), c') \<Longrightarrow>
   body exec g st = Failed (mems st) err c'"
  by (cases "next_fetch (limit st)") (simp add: body_def)

lemma body_page:
  "membersAfter exec (client st) g (after st) (fst (next_fetch (limit st))) = ((m, None), c') \<Longrightarrow>
   body exec g st =
     (if length (mems st @ m) < 1000 then Break (mems st @ m) c'
      else Continue \<lparr>limit = snd (next_fetch (limit st)),
                     after = ID (User ((mems st @ m) ! 999)),
                     mems = mems st @ m, client = c'\<rparr>)"
  by (cases "next_fetch (limit st)") (simp add: body_def hardLimit_def Let_def)

subsection \<open>One iteration, and the loop under a limit\<close>

lemma fetch_le_1000: "fst (next_fetch lim) \<le> 1000"
  by (cases "0 < lim") (auto simp add: next_fetch_pos next_fetch_def hardLimit_def Let_def)

lemma body_membersAfter:
  "membersAfter exec (client st) g (after st) (fst (next_fetch (limit st))) =
   exec (client st) g \<lparr>After = after st, Limit = fst (next_fetch (limit st))\<rparr>"
  by (rule membersAfter_small [OF fetch_le_1000])

lemma body_ContinueD:
  assumes "body exec g st = Continue st'"
  shows "\<exists>m c'. membersAfter exec (client st) g (after st) (fst (next_fetch (limit st)))
                  = ((m, None), c')
               \<and> 1000 \<le> length (mems st @ m)
               \<and> st' = \<lparr>limit = snd (next_fetch (limit st)),
                         after = ID (User ((mems st @ m) ! 999)),
                         mems = mems st @ m, client = c'\<rparr>"
proof -
  obtain m e c' where r: "membersAfter exec (client st) g (after st) (fst (next_fetch (limit st)))
      = ((m, e), c')"
    by (metis surj_pair)
  show ?thesis
  proof (cases e)
    case None
    with r assms show ?thesis
      by (simp add: body_page split: if_splits)
  next
    case (Some err)
    with r assms show ?thesis
      by (simp add: body_error)
  qed
qed

lemma unat_min_1000: "unat (min lim (1000 :: 64 word)) = min (unat lim) 1000"
  by (simp add: min_def word_le_nat_alt)

lemma next_fetch_unat:
  assumes "0 < lim"
  shows "0 < unat (fst (next_fetch lim))"
    and "unat (fst (next_fetch lim)) + unat (snd (next_fetch lim)) = unat lim"
proof -
  have le: "min lim 1000 \<le> lim" by simp
  have "min lim 1000 \<noteq> 0" using assms by (auto simp add: min_def)
  then show "0 < unat (fst (next_fetch lim))"
    using assms by (simp add: next_fetch_pos unat_gt_0 del: min_less_iff_conj)
  show "unat (fst (next_fetch lim)) + unat (snd (next_fetch lim)) = unat lim"
    using assms le by (simp add: next_fetch_pos unat_sub word_le_nat_alt)
qed

lemma honours_limitD:
  "honours_limit exec \<Longrightarrow> exec c g p = ((ms, None), c') \<Longrightarrow> length ms \<le> unat (Limit p)"
  unfolding honours_limit_def by blast

lemma bounded_loop_returns:
  assumes h: "honours_limit exec"
  shows "length (mems st) + unat (limit st) \<le> B \<Longrightarrow>
         \<exists>ms e c'. loop exec g False st = Some ((ms, e), c') \<and> length ms \<le> B"
proof (induction "unat (limit st)" arbitrary: st rule: less_induct)
  case less
  show ?case
  proof (cases "0 < limit st")
    case False
    then show ?thesis using less.prems by (simp add: loop_exit)
  next
    case True
    let ?f = "fst (next_fetch (limit st))"
    obtain m e c' where r: "membersAfter exec (client st) g (after st) ?f = ((m, e), c')"
      by (metis surj_pair)
    show ?thesis
    proof (cases e)
      case (Some err)
      with r have "body exec g st = Failed (mems st) err c'" by (simp add: body_error)
      then show ?thesis using True less.prems by (simp add: loop_Failed)
    next
      case None
      with r have "exec (client st) g \<lparr>After = after st, Limit = ?f\<rparr> = ((m, None), c')"
        by (simp add: body_membersAfter)
      from honours_limitD [OF h this] have lm: "length m \<le> unat ?f" by simp
      note nf = next_fetch_unat [OF True]
      show ?thesis
      proof (cases "length (mems st @ m) < 1000")
        case True
        with r None have "body exec g st = Break (mems st @ m) c'" by (simp add: body_page)
        then show ?thesis using \<open>0 < limit st\<close> less.prems lm nf by (simp add: loop_Break)
      next
        case False
        let ?st' = "\<lparr>limit = snd (next_fetch (limit st)),
                     after = ID (User ((mems st @ m) ! 999)),
                     mems = mems st @ m, client = c'\<rparr>"
        from False r None have b: "body exec g st = Continue ?st'" by (simp add: body_page)
        have "unat (limit ?st') < unat (limit st)" using nf by simp
        moreover have "length (mems ?st') + unat (limit ?st') \<le> B"
          using less.prems lm nf by simp
        ultimately have "\<exists>ms e c'. loop exec g False ?st' = Some ((ms, e), c') \<and> length ms \<le> B"
          by (rule less.hyps)
        then show ?thesis using \<open>0 < limit st\<close> b by (simp add: loop_Continue)
      qed
    qed
  qed
qed

lemma reach_bounded:
  assumes h: "honours_limit exec"
    and r: "reach exec g u st0 st"
    and u: "\<not> u"
  shows "length (mems st) + unat (limit st) \<le> length (mems st0) + unat (limit st0)"
  using r
proof (induction rule: reach.induct)
  case start
  show ?case by simp
next
  case (step st st')
  from step.hyps(2) u have pos: "0 < limit st" by simp
  from body_ContinueD [OF step.hyps(3)] obtain m c' where
    p: "membersAfter exec (client st) g (after st) (fst (next_fetch (limit st))) = ((m, None), c')"
    and st': "st' = \<lparr>limit = snd (next_fetch (limit st)),
                     after = ID (User ((mems st @ m) ! 999)),
                     mems = mems st @ m, client = c'\<rparr>"
    by blast
  from p have "exec (client st) g \<lparr>After = after st, Limit = fst (next_fetch (limit st))\<rparr>
      = ((m, None), c')"
    by (simp add: body_membersAfter)
  from honours_limitD [OF h this] have "length m \<le> unat (fst (next_fetch (limit st)))"
    by simp
  then show ?case
    using step.IH next_fetch_unat [OF pos] st' by simp
qed


subsection \<open>The requests a recording client sees\<close>

lemma logged_membersAfter:
  "membersAfter (logged exec) (c, log) g a f =
     (fst (membersAfter exec c g a f),
      (snd (membersAfter exec c g a f),
       log @ [(g, \<lparr>After = a, Limit = (if 1000 < f then 1000 else f)\<rparr>)]))"
  by (simp add: membersAfter_def logged_def Let_def split: prod.splits)

lemma client_after_body:
  "client_after (body exec g st)
   = snd (membersAfter exec (client st) g (after st) (fst (next_fetch (limit st))))"
proof -
  obtain m e c' where r: "membersAfter exec (client st) g (after st) (fst (next_fetch (limit st)))
      = ((m, e), c')"
    by (metis surj_pair)
  show ?thesis
  proof (cases e)
    case None
    with r show ?thesis by (simp add: body_page)
  next
    case (Some err)
    with r show ?thesis by (simp add: body_error)
  qed
qed

lemma logged_body_request:
  "snd (client_after (body (logged exec) g st))
   = snd (client st) @ [(g, \<lparr>After = after st, Limit = fst (next_fetch (limit st))\<rparr>)]"
proof -
  have "\<not> 1000 < fst (next_fetch (limit st))"
    using fetch_le_1000 [of "limit st"] by (simp add: not_less)
  then show ?thesis
    using logged_membersAfter [of exec "fst (client st)" "snd (client st)" g "after st"
        "fst (next_fetch (limit st))"]
    by (simp add: client_after_body)
qed




lemma recorded_membersAfter:
  "membersAfter (recorded exec) (c, log) g a f =
     (fst (membersAfter exec c g a f),
      (snd (membersAfter exec c g a f),
       log @ [((g, \<lparr>After = a, Limit = (if 1000 < f then 1000 else f)\<rparr>),
               fst (membersAfter exec c g a f))]))"
  by (simp add: membersAfter_def recorded_def Let_def split: prod.splits)

lemma recorded_exchange:
  assumes "membersAfter (recorded exec) (client st) g (after st) (fst (next_fetch (limit st)))
           = (r, c')"
  shows "snd c' = snd (client st)
           @ [((g, \<lparr>After = after st, Limit = fst (next_fetch (limit st))\<rparr>), r)]"
proof -
  have "\<not> 1000 < fst (next_fetch (limit st))"
    using fetch_le_1000 [of "limit st"] by (simp add: not_less)
  then show ?thesis
    using assms recorded_membersAfter [of exec "fst (client st)" "snd (client st)" g "after st"
        "fst (next_fetch (limit st))"]
    by auto
qed

lemma pages_snoc: "pages (xs @ [(q, (m, e))]) = pages xs @ m"
  by (simp add: pages_def)

lemma reach_recorded:
  assumes r: "reach (recorded exec) g u st0 st"
    and i0: "mems st0 = pages (snd (client st0))"
    and s0: "\<forall>x \<in> set (snd (client st0)). snd (snd x) = None"
  shows "mems st = pages (snd (client st)) \<and> (\<forall>x \<in> set (snd (client st)). snd (snd x) = None)"
  using r
proof (induction rule: reach.induct)
  case start
  show ?case using i0 s0 by simp
next
  case (step st st')
  from body_ContinueD [OF step.hyps(3)] obtain m c' where
    p: "membersAfter (recorded exec) (client st) g (after st) (fst (next_fetch (limit st)))
          = ((m, None), c')"
    and st': "st' = \<lparr>limit = snd (next_fetch (limit st)),
                     after = ID (User ((mems st @ m) ! 999)),
                     mems = mems st @ m, client = c'\<rparr>"
    by blast
  from recorded_exchange [OF p] step.IH st' show ?case
    by (simp add: pages_snoc)
qed

lemma loop_log_grows:
  assumes ret: "loop (logged exec) g u st = Some (r, c')"
  shows "length (snd (client st)) + (if 0 < limit st \<or> u then 1 else 0) \<le> length (snd c')"
proof -
  have "\<forall>exec. e = logged exec \<longrightarrow>
          length (snd (client s)) + (if 0 < limit s \<or> u' then 1 else 0) \<le> length (snd (snd y))"
    if "loop e g' u' s = Some y" for e :: "('a \<times> request list) executor" and g' u' s y
  proof (rule loop.raw_induct
      [where P = "\<lambda>e g' u' s y. \<forall>exec. e = logged exec \<longrightarrow>
          length (snd (client s)) + (if 0 < limit s \<or> u' then 1 else 0) \<le> length (snd (snd y))",
        OF _ that])
    fix loop' e g' u' s y
    assume IH: "\<And>g' u' s e y. loop' g' u' s e = Some y \<Longrightarrow>
        \<forall>exec. g' = logged exec \<longrightarrow>
          length (snd (client e)) + (if 0 < limit e \<or> s then 1 else 0) \<le> length (snd (snd y))"
      and eq: "(if 0 < limit s \<or> u' then
                 case body e g' s of
                   Failed ms err c' \<Rightarrow> Some ((ms, Some err), c')
                 | Break ms c' \<Rightarrow> Some ((ms, None), c')
                 | Continue st' \<Rightarrow> loop' e g' u' st'
               else Some ((mems s, None), client s)) = Some y"
    show "\<forall>exec. e = logged exec \<longrightarrow>
          length (snd (client s)) + (if 0 < limit s \<or> u' then 1 else 0) \<le> length (snd (snd y))"
    proof (intro allI impI)
      fix exec assume e: "e = logged exec"
      show "length (snd (client s)) + (if 0 < limit s \<or> u' then 1 else 0) \<le> length (snd (snd y))"
      proof (cases "0 < limit s \<or> u'")
        case False
        with eq show ?thesis by auto
      next
        case True
        have lg: "length (snd (client_after (body e g' s))) = Suc (length (snd (client s)))"
          unfolding e logged_body_request by simp
        show ?thesis
        proof (cases "body e g' s")
          case (Failed ms err c')
          with eq True lg show ?thesis by auto
        next
          case (Break ms c')
          with eq True lg show ?thesis by auto
        next
          case (Continue st')
          with eq True have "loop' e g' u' st' = Some y" by simp
          from IH [OF this] e have "length (snd (client st')) \<le> length (snd (snd y))" by auto
          with lg Continue True show ?thesis by simp
        qed
      qed
    qed
  qed
  from this [OF ret] have "logged exec = logged exec \<longrightarrow>
      length (snd (client st)) + (if 0 < limit st \<or> u then 1 else 0) \<le> length (snd (snd (r, c')))"
    by (rule spec)
  then show ?thesis by simp
qed

lemma stops_after_iff:
  assumes gd: "0 < limit st \<or> u"
    and p: "membersAfter (logged exec) (client st) g (after st) (fst (next_fetch (limit st)))
            = ((m, None), c')"
  shows "stops_after exec g u st \<longleftrightarrow>
         length (mems st) + length m < 1000 \<or> (\<not> u \<and> snd (next_fetch (limit st)) = 0)"
    and "length (mems st) + length m < 1000 \<or> (\<not> u \<and> snd (next_fetch (limit st)) = 0) \<Longrightarrow>
         loop (logged exec) g u st = Some ((mems st @ m, None), c')"
proof -
  let ?st' = "\<lparr>limit = snd (next_fetch (limit st)), after = ID (User ((mems st @ m) ! 999)),
               mems = mems st @ m, client = c'\<rparr>"
  have lg: "length (snd c') = Suc (length (snd (client st)))"
    using logged_body_request [of exec g st] p by (simp add: client_after_body)
  have stop: "loop (logged exec) g u st = Some ((mems st @ m, None), c')"
    if "length (mems st) + length m < 1000 \<or> (\<not> u \<and> snd (next_fetch (limit st)) = 0)"
  proof (cases "length (mems st) + length m < 1000")
    case True
    then have "body (logged exec) g st = Break (mems st @ m) c'"
      by (simp add: body_page [OF p])
    from loop_Break [OF gd this] show ?thesis .
  next
    case False
    then have b: "body (logged exec) g st = Continue ?st'"
      by (simp add: body_page [OF p])
    from False that have "\<not> (0 < limit ?st' \<or> u)" by simp
    from loop_exit [OF this] loop_Continue [OF gd b] show ?thesis by simp
  qed
  then show "length (mems st) + length m < 1000 \<or> (\<not> u \<and> snd (next_fetch (limit st)) = 0) \<Longrightarrow>
         loop (logged exec) g u st = Some ((mems st @ m, None), c')" .
  show "stops_after exec g u st \<longleftrightarrow>
         length (mems st) + length m < 1000 \<or> (\<not> u \<and> snd (next_fetch (limit st)) = 0)"
  proof
    assume "length (mems st) + length m < 1000 \<or> (\<not> u \<and> snd (next_fetch (limit st)) = 0)"
    from stop [OF this] lg show "stops_after exec g u st"
      by (simp add: stops_after_def)
  next
    assume s: "stops_after exec g u st"
    show "length (mems st) + length m < 1000 \<or> (\<not> u \<and> snd (next_fetch (limit st)) = 0)"
    proof (rule ccontr)
      assume n: "\<not> (length (mems st) + length m < 1000 \<or> (\<not> u \<and> snd (next_fetch (limit st)) = 0))"
      then have b: "body (logged exec) g st = Continue ?st'"
        by (simp add: body_page [OF p])
      from n have gd': "0 < limit ?st' \<or> u" by (auto simp add: word_gt_0)
      from s obtain r c'' where ret: "loop (logged exec) g u st = Some (r, c'')"
        and one: "length (snd c'') = Suc (length (snd (client st)))"
        by (auto simp add: stops_after_def)
      from ret loop_Continue [OF gd b] have "loop (logged exec) g u ?st' = Some (r, c'')" by simp
      from loop_log_grows [OF this] gd' have "Suc (length (snd c')) \<le> length (snd c'')"
        by (simp split: if_splits)
      with lg one show False by simp
    qed
  qed
qed

subsection \<open>Pages of the backing source\<close>

lemma length_records: "length (records i j) = j - i"
  by (simp add: records_def)

lemma nth_records: "k < j - i \<Longrightarrow> records i j ! k = \<lparr>User = \<lparr>ID = of_nat (i + k)\<rparr>\<rparr>"
  by (simp add: records_def)

lemma take_records: "take n (records i j) = records i (min j (i + n))"
  by (simp add: records_def take_map min_def)

lemma records_append: "i \<le> k \<Longrightarrow> k \<le> j \<Longrightarrow> records i k @ records k j = records i j"
proof -
  assume ik: "i \<le> k" and "k \<le> j"
  then obtain d where j: "j = k + d" using le_Suc_ex by blast
  show ?thesis
    unfolding records_def j upt_add_eq_append [OF ik] by simp
qed

lemma records_empty: "j \<le> i \<Longrightarrow> records i j = []"
  by (simp add: records_def)

lemma filter_upt_greater: "filter (\<lambda>x. k < x) [i..<j] = [max i (Suc k)..<j]"
proof (induction j)
  case 0
  then show ?case by simp
next
  case (Suc j)
  then show ?case by (auto simp add: max_def not_less_eq_eq)
qed

lemma filter_records:
  assumes "j \<le> 2 ^ 64" "k < 2 ^ 64"
  shows "filter (\<lambda>m. (of_nat k :: 64 word) < ID (User m)) (records i j) = records (max i (Suc k)) j"
proof -
  have "filter ((\<lambda>m. (of_nat k :: 64 word) < ID (User m)) \<circ> (\<lambda>k. \<lparr>User = \<lparr>ID = of_nat k\<rparr>\<rparr>)) [i..<j]
        = filter (\<lambda>x. k < x) [i..<j]"
  proof (rule filter_cong [OF refl])
    fix x assume "x \<in> set [i..<j]"
    then have "x < 2 ^ 64" using assms(1) by simp
    then show "((\<lambda>m. (of_nat k :: 64 word) < ID (User m)) \<circ> (\<lambda>k. \<lparr>User = \<lparr>ID = of_nat k\<rparr>\<rparr>)) x = (k < x)"
      using assms(2) by (simp add: of_nat_word_less_iff take_bit_nat_eq_self)
  qed
  then show ?thesis
    by (simp add: records_def filter_map filter_upt_greater)
qed

lemma source_page:
  assumes "j \<le> 2 ^ 64" "k < 2 ^ 64" "n < 2 ^ 64"
  shows "source (records i j) c g \<lparr>After = of_nat k, Limit = of_nat n\<rparr>
         = ((records (max i (Suc k)) (min j (max i (Suc k) + n)), None), c)"
  using assms by (simp add: source_def filter_records take_records unat_of_nat take_bit_nat_eq_self)

lemma logged_page:
  "exec c g p = (r, c') \<Longrightarrow> logged exec (c, log) g p = (r, (c', log @ [(g, p)]))"
  by (simp add: logged_def)

lemma loop_diverges:
  assumes inv: "\<And>st. I st \<Longrightarrow> (0 < limit st \<or> u) \<and> (\<exists>st'. body exec g st = Continue st' \<and> I st')"
  shows "I st \<Longrightarrow> loop exec g u st = None"
proof -
  have "exec = exec \<and> g = g \<and> u = u \<longrightarrow> \<not> I st" if ret: "loop exec g u st = Some y" for y
  proof (rule loop.raw_induct
      [where P = "\<lambda>e g' u' s y. e = exec \<and> g' = g \<and> u' = u \<longrightarrow> \<not> I s", OF _ ret])
    fix loop' e g' u' s r
    assume IH: "\<And>g' u' s e y. loop' g' u' s e = Some y \<Longrightarrow> g' = exec \<and> u' = g \<and> s = u \<longrightarrow> \<not> I e"
      and eq: "(if 0 < limit s \<or> u' then
                 case body e g' s of
                   Failed ms err c' \<Rightarrow> Some ((ms, Some err), c')
                 | Break ms c' \<Rightarrow> Some ((ms, None), c')
                 | Continue st' \<Rightarrow> loop' e g' u' st'
               else Some ((mems s, None), client s)) = Some r"
    show "e = exec \<and> g' = g \<and> u' = u \<longrightarrow> \<not> I s"
    proof (intro impI notI)
      assume same: "e = exec \<and> g' = g \<and> u' = u" and "I s"
      from inv [OF \<open>I s\<close>] obtain st' where g: "0 < limit s \<or> u"
        and b: "body exec g s = Continue st'" and i: "I st'" by blast
      from eq same g b have "loop' exec g u st' = Some r" by simp
      from IH [OF this] i show False by simp
    qed
  qed
  then show "I st \<Longrightarrow> loop exec g u st = None" by (cases "loop exec g u st") auto
qed

lemma logged_source_page:
  assumes "j \<le> 2 ^ 64" "k < 2 ^ 64" "n \<le> 1000"
  shows "membersAfter (logged (source (records i j))) (c, log) g (of_nat k) (of_nat n)
         = ((records (max i (Suc k)) (min j (max i (Suc k) + n)), None),
            (c, log @ [(g, \<lparr>After = of_nat k, Limit = of_nat n\<rparr>)]))"
proof -
  have "(of_nat n :: 64 word) \<le> 1000"
    using assms(3) by (simp add: word_le_nat_alt unat_of_nat take_bit_nat_eq_self)
  moreover have "source (records i j) c g \<lparr>After = of_nat k, Limit = of_nat n\<rparr>
         = ((records (max i (Suc k)) (min j (max i (Suc k) + n)), None), c)"
    using assms by (intro source_page) simp_all
  ultimately show ?thesis
    by (simp add: membersAfter_small logged_def)
qed

lemma source_honours_limit: "honours_limit (source recs)"
  by (simp add: honours_limit_def source_def)

lemma logged_honours_limit: "honours_limit exec \<Longrightarrow> honours_limit (logged exec)"
  by (auto simp add: honours_limit_def logged_def split: prod.splits)

subsection \<open>The two iterations of a run with limit 1500 on 2000 records\<close>

lemma run_1500_first:
  "body (logged (source (records 1 2001))) g
     \<lparr>limit = 1500, after = 0, mems = [], client = ((), [])\<rparr>
   = Continue \<lparr>limit = 500, after = 1000, mems = records 1 1001,
               client = ((), [(g, \<lparr>After = 0, Limit = 1000\<rparr>)])\<rparr>"
proof -
  let ?st0 = "\<lparr>limit = 1500, after = 0, mems = [], client = ((), [])\<rparr>"
  have p1: "membersAfter (logged (source (records 1 2001))) (client ?st0) g (after ?st0)
              (fst (next_fetch (limit ?st0)))
            = ((records 1 1001, None), ((), [(g, \<lparr>After = 0, Limit = 1000\<rparr>)]))"
    using logged_source_page [of 2001 0 1000 1 "()" "[]" g] by (simp add: next_fetch_pos)
  show ?thesis
    by (subst body_page [OF p1]) (simp add: next_fetch_pos length_records nth_records)
qed

lemma run_1500_second:
  "body (logged (source (records 1 2001))) g
     \<lparr>limit = 500, after = 1000, mems = records 1 1001,
      client = ((), [(g, \<lparr>After = 0, Limit = 1000\<rparr>)])\<rparr>
   = Continue \<lparr>limit = 0, after = 1000, mems = records 1 1001 @ records 1001 1501,
               client = ((), [(g, \<lparr>After = 0, Limit = 1000\<rparr>),
                              (g, \<lparr>After = 1000, Limit = 500\<rparr>)])\<rparr>"
proof -
  let ?r1 = "(g, \<lparr>After = 0, Limit = 1000\<rparr>)"
  let ?st1 = "\<lparr>limit = 500, after = 1000, mems = records 1 1001, client = ((), [?r1])\<rparr>"
  have p2: "membersAfter (logged (source (records 1 2001))) (client ?st1) g (after ?st1)
              (fst (next_fetch (limit ?st1)))
            = ((records 1001 1501, None), ((), [?r1, (g, \<lparr>After = 1000, Limit = 500\<rparr>)]))"
    using logged_source_page [of 2001 1000 500 1 "()" "[?r1]" g] by (simp add: next_fetch_pos)
  show ?thesis
    by (subst body_page [OF p2]) (simp add: next_fetch_pos length_records nth_records nth_append)
qed

lemma run_1500_reach:
  "reach (logged (source (records 1 2001))) g False
     \<lparr>limit = 1500, after = 0, mems = [], client = ((), [])\<rparr>
     \<lparr>limit = 500, after = 1000, mems = records 1 1001,
      client = ((), [(g, \<lparr>After = 0, Limit = 1000\<rparr>)])\<rparr>"
  by (rule reach.step [OF reach.start _ run_1500_first]) simp

subsection \<open>Runs that never return\<close>

lemma stuck_step:
  assumes N: "1000 \<le> N" "N < 2 ^ 64" and st: "stuck st"
  shows "\<exists>st'. body (source (records 1 (Suc N))) g st = Continue st' \<and> stuck st'"
proof -
  have page: "membersAfter (source (records 1 (Suc N))) (client st) g (after st)
                (fst (next_fetch (limit st)))
              = ((records 1001 (min (Suc N) 2001), None), client st)"
    using st N source_page [of "Suc N" 1000 1000 1 "client st" g]
    by (simp add: stuck_def next_fetch_zero membersAfter_small)
  have "body (source (records 1 (Suc N))) g st =
          Continue \<lparr>limit = 0, after = 1000,
                     mems = mems st @ records 1001 (min (Suc N) 2001), client = client st\<rparr>"
    using st by (subst body_page [OF page]) (simp add: stuck_def next_fetch_zero nth_append)
  moreover have "stuck \<lparr>limit = 0, after = 1000,
                     mems = mems st @ records 1001 (min (Suc N) 2001), client = client st\<rparr>"
    using st by (simp add: stuck_def nth_append)
  ultimately show ?thesis by blast
qed

lemma first_page_stuck:
  assumes N: "1000 \<le> N" "N < 2 ^ 64"
  shows "\<exists>st'. body (source (records 1 (Suc N))) g \<lparr>limit = 0, after = 0, mems = [], client = c\<rparr>
           = Continue st' \<and> stuck st'"
proof -
  let ?st = "\<lparr>limit = 0, after = 0, mems = [], client = c\<rparr>"
  have page: "membersAfter (source (records 1 (Suc N))) (client ?st) g (after ?st)
                (fst (next_fetch (limit ?st)))
              = ((records 1 1001, None), c)"
    using N source_page [of "Suc N" 0 1000 1 c g]
    by (simp add: next_fetch_zero membersAfter_small min_def)
  have "body (source (records 1 (Suc N))) g ?st =
          Continue \<lparr>limit = 0, after = 1000, mems = records 1 1001, client = c\<rparr>"
    by (subst body_page [OF page]) (simp add: next_fetch_zero length_records nth_records)
  moreover have "stuck \<lparr>limit = 0, after = 1000, mems = records 1 1001, client = c\<rparr>"
    by (simp add: stuck_def length_records nth_records)
  ultimately show ?thesis by blast
qed

lemma unlimited_never_returns:
  assumes N: "1000 \<le> N" "N < 2 ^ 64"
  shows "MembersAfter (source (records 1 (Suc N))) c g 0 0 = None"
proof -
  let ?exec = "source (records 1 (Suc N))"
  obtain st' where b: "body ?exec g \<lparr>limit = 0, after = 0, mems = [], client = c\<rparr> = Continue st'"
    and s: "stuck st'"
    using first_page_stuck [OF N] by blast
  have "loop ?exec g True st' = None"
  proof (rule loop_diverges [where I = stuck, OF _ s])
    fix st :: "unit vars" assume "stuck st"
    then show "(0 < limit st \<or> True) \<and> (\<exists>st'. body ?exec g st = Continue st' \<and> stuck st')"
      using stuck_step [OF N] by simp
  qed
  then show ?thesis
    using loop_Continue [OF _ b, of True] by (simp add: MembersAfter_def)
qed

section \<open>Runs against a backing source\<close>


text \<open>
  C1. The cursor after the second page. With limit 3000 and a backing source of 3000
  records, the first request starts at cursor 0 and the second at the identifier 1000,
  the last record of the first page. The second page ends with the record 2000, but the
  third request is sent with the cursor 1000 again, the identifier at index
  \<^verbatim>\<open>hardLimit-1\<close> of the accumulated sequence, and the records 1001 to 2000 are
  returned twice.
\<close>

theorem MembersAfter_cursor_stays_on_record_1000:
  "MembersAfter (logged (source (records 1 3001))) ((), []) g 0 3000 =
     Some ((records 1 1001 @ records 1001 2001 @ records 1001 2001, None),
           ((), [(g, \<lparr>After = 0, Limit = 1000\<rparr>),
                 (g, \<lparr>After = 1000, Limit = 1000\<rparr>),
                 (g, \<lparr>After = 1000, Limit = 1000\<rparr>)]))"
proof -
  let ?exec = "logged (source (records 1 3001))"
  let ?r1 = "(g, \<lparr>After = 0, Limit = 1000\<rparr>)"
  let ?r2 = "(g, \<lparr>After = 1000, Limit = 1000\<rparr>)"
  let ?st0 = "\<lparr>limit = 3000, after = 0, mems = [], client = ((), [])\<rparr>"
  let ?st1 = "\<lparr>limit = 2000, after = 1000, mems = records 1 1001, client = ((), [?r1])\<rparr>"
  let ?st2 = "\<lparr>limit = 1000, after = 1000, mems = records 1 1001 @ records 1001 2001,
               client = ((), [?r1, ?r2])\<rparr>"
  let ?st3 = "\<lparr>limit = 0, after = 1000,
               mems = (records 1 1001 @ records 1001 2001) @ records 1001 2001,
               client = ((), [?r1, ?r2, ?r2])\<rparr>"
  have p1: "membersAfter ?exec (client ?st0) g (after ?st0) (fst (next_fetch (limit ?st0)))
            = ((records 1 1001, None), ((), [?r1]))"
    using logged_source_page [of 3001 0 1000 1 "()" "[]" g] by (simp add: next_fetch_pos)
  have b1: "body ?exec g ?st0 = Continue ?st1"
    by (subst body_page [OF p1]) (simp add: next_fetch_pos length_records nth_records)
  have p2: "membersAfter ?exec (client ?st1) g (after ?st1) (fst (next_fetch (limit ?st1)))
            = ((records 1001 2001, None), ((), [?r1, ?r2]))"
    using logged_source_page [of 3001 1000 1000 1 "()" "[?r1]" g] by (simp add: next_fetch_pos)
  have b2: "body ?exec g ?st1 = Continue ?st2"
    by (subst body_page [OF p2]) (simp add: next_fetch_pos length_records nth_records nth_append)
  have p3: "membersAfter ?exec (client ?st2) g (after ?st2) (fst (next_fetch (limit ?st2)))
            = ((records 1001 2001, None), ((), [?r1, ?r2, ?r2]))"
    using logged_source_page [of 3001 1000 1000 1 "()" "[?r1, ?r2]" g] by (simp add: next_fetch_pos)
  have b3: "body ?exec g ?st2 = Continue ?st3"
    by (subst body_page [OF p3]) (simp add: next_fetch_pos length_records nth_records nth_append)
  have "loop ?exec g False ?st0 = loop ?exec g False ?st1"
    by (rule loop_Continue [OF _ b1]) simp
  also have "\<dots> = loop ?exec g False ?st2"
    by (rule loop_Continue [OF _ b2]) simp
  also have "\<dots> = loop ?exec g False ?st3"
    by (rule loop_Continue [OF _ b3]) simp
  also have "\<dots> = Some ((mems ?st3, None), client ?st3)"
    by (rule loop_exit) simp
  finally show ?thesis
    by (simp add: MembersAfter_def)
qed

text \<open>
  C2. With a backing source of 1500 records and limit 0, \<^verbatim>\<open>MembersAfter\<close> from cursor 0
  never returns: after the second page 1500 records are accumulated, the check of line 59
  does not stop the loop, the cursor stays on the record 1000 and the second page is
  fetched again and again.
\<close>

theorem MembersAfter_unlimited_1500_never_returns:
  "MembersAfter (source (records 1 1501)) () g 0 0 = None"
  using unlimited_never_returns [of 1500 "()" g] by simp

text \<open>
  C3. With a backing source of exactly 1000 records and limit 0, \<^verbatim>\<open>MembersAfter\<close> from
  cursor 0 never returns either: every call after the first gives an empty page, the
  accumulated count stays at 1000, which is not below \<^verbatim>\<open>hardLimit\<close>, and nothing
  else ends an unlimited loop.
\<close>

theorem MembersAfter_unlimited_1000_never_returns:
  "MembersAfter (source (records 1 1001)) () g 0 0 = None"
  using unlimited_never_returns [of 1000 "()" g] by simp

section \<open>The iterations of the loop\<close>



text \<open>
  C5. When the page request of an iteration fails, \<^verbatim>\<open>MembersAfter\<close> returns that error
  together with the records of all the pages the client returned before, in the order
  they were returned; every request before the failed one had succeeded, and the failed
  request is the last one the client receives.
\<close>

theorem MembersAfter_error_returns_all_pages:
  "reach (recorded exec) g (n = 0) \<lparr>limit = n, after = a, mems = [], client = (c, [])\<rparr> st \<Longrightarrow>
   0 < limit st \<or> n = 0 \<Longrightarrow>
   membersAfter (recorded exec) (client st) g (after st) (fst (next_fetch (limit st)))
     = ((m, Some err), c') \<Longrightarrow>
   MembersAfter (recorded exec) (c, []) g a n = Some ((pages (snd (client st)), Some err), c')
   \<and> snd c' = snd (client st)
        @ [((g, \<lparr>After = after st, Limit = fst (next_fetch (limit st))\<rparr>), (m, Some err))]
   \<and> (\<forall>x \<in> set (snd (client st)). snd (snd x) = None)"
proof (intro conjI)
  assume r: "reach (recorded exec) g (n = 0) \<lparr>limit = n, after = a, mems = [], client = (c, [])\<rparr> st"
    and gd: "0 < limit st \<or> n = 0"
    and e: "membersAfter (recorded exec) (client st) g (after st) (fst (next_fetch (limit st)))
              = ((m, Some err), c')"
  from reach_recorded [OF r] have inv: "mems st = pages (snd (client st))"
    and ok: "\<forall>x \<in> set (snd (client st)). snd (snd x) = None"
    by (simp_all add: pages_def)
  from e have b: "body (recorded exec) g st = Failed (mems st) err c'" by (rule body_error)
  show "MembersAfter (recorded exec) (c, []) g a n = Some ((pages (snd (client st)), Some err), c')"
    using reach_loop [OF r] loop_Failed [OF gd b] inv by (simp add: MembersAfter_def)
  show "snd c' = snd (client st)
        @ [((g, \<lparr>After = after st, Limit = fst (next_fetch (limit st))\<rparr>), (m, Some err))]"
    by (rule recorded_exchange [OF e])
  show "\<forall>x \<in> set (snd (client st)). snd (snd x) = None" by (rule ok)
qed

theorem MembersAfter_error_returns_all_pages_witness:
  "MembersAfter (recorded (fails_from 2 (replicate 1000 \<lparr>User = \<lparr>ID = 5\<rparr>\<rparr>) (RequestError ''timeout'')))
     (0, []) 7 0 0
   = Some ((replicate 1000 \<lparr>User = \<lparr>ID = 5\<rparr>\<rparr> @ replicate 1000 \<lparr>User = \<lparr>ID = 5\<rparr>\<rparr>,
            Some (RequestError ''timeout'')),
           (3, [((7, \<lparr>After = 0, Limit = 1000\<rparr>), (replicate 1000 \<lparr>User = \<lparr>ID = 5\<rparr>\<rparr>, None)),
                ((7, \<lparr>After = 5, Limit = 1000\<rparr>), (replicate 1000 \<lparr>User = \<lparr>ID = 5\<rparr>\<rparr>, None)),
                ((7, \<lparr>After = 5, Limit = 1000\<rparr>), ([], Some (RequestError ''timeout'')))]))"
proof -
  let ?page = "replicate 1000 \<lparr>User = \<lparr>ID = 5\<rparr>\<rparr>"
  let ?err = "RequestError ''timeout''"
  let ?exec = "recorded (fails_from 2 ?page ?err)"
  let ?x1 = "((7 :: snowflake, \<lparr>After = 0, Limit = 1000\<rparr>), (?page, None :: error option))"
  let ?x2 = "((7 :: snowflake, \<lparr>After = 5, Limit = 1000\<rparr>), (?page, None :: error option))"
  let ?x3 = "((7 :: snowflake, \<lparr>After = 5, Limit = 1000\<rparr>), ([] :: member list, Some ?err))"
  let ?st0 = "\<lparr>limit = 0, after = 0, mems = [], client = (0 :: nat, [])\<rparr>"
  let ?st1 = "\<lparr>limit = 0, after = 5, mems = ?page, client = (Suc 0, [?x1])\<rparr>"
  let ?st2 = "\<lparr>limit = 0, after = 5, mems = ?page @ ?page, client = (Suc (Suc 0), [?x1, ?x2])\<rparr>"
  have p1: "membersAfter ?exec (client ?st0) 7 (after ?st0) (fst (next_fetch (limit ?st0)))
            = ((?page, None), (Suc 0, [?x1]))"
    by (simp add: next_fetch_zero membersAfter_small recorded_def fails_from_def)
  have b1: "body ?exec 7 ?st0 = Continue ?st1"
    by (subst body_page [OF p1]) (simp add: next_fetch_zero)
  have p2: "membersAfter ?exec (client ?st1) 7 (after ?st1) (fst (next_fetch (limit ?st1)))
            = ((?page, None), (Suc (Suc 0), [?x1, ?x2]))"
    by (simp add: next_fetch_zero membersAfter_small recorded_def fails_from_def)
  have b2: "body ?exec 7 ?st1 = Continue ?st2"
    by (subst body_page [OF p2]) (simp add: next_fetch_zero nth_append)
  have r: "reach ?exec 7 ((0 :: uint) = 0) \<lparr>limit = 0, after = 0, mems = [], client = (0, [])\<rparr> ?st2"
    by (rule reach.step [OF reach.step [OF reach.start _ b1] _ b2]) simp_all
  have gd: "0 < limit ?st2 \<or> (0 :: uint) = 0" by simp
  have p3: "membersAfter ?exec (client ?st2) 7 (after ?st2) (fst (next_fetch (limit ?st2)))
            = (([], Some ?err), (Suc (Suc (Suc 0)), [?x1, ?x2, ?x3]))"
    by (simp add: next_fetch_zero membersAfter_small recorded_def fails_from_def)
  from MembersAfter_error_returns_all_pages [OF r gd p3] show ?thesis
    by (simp add: numeral_3_eq_3 pages_def)
qed

text \<open>
  C4. After an iteration whose page request succeeded, the \<^verbatim>\<open>break\<close> of line 60 is
  taken if and only if the number of records accumulated so far, the new page included, is
  below 1000: the count is the total, not the size of the page. The loop stops without a
  further request if and only if that \<^verbatim>\<open>break\<close> is taken or the loop is bounded and
  its remaining limit is 0; it then returns the accumulated records without error. In
  particular a first page of fewer than 1000 records ends the run after that one request,
  with that page as the result.
\<close>

theorem loop_stops_iff_break_or_limit_consumed:
  "(\<forall>m c'. (0 < limit st \<or> u)
        \<and> membersAfter (logged exec) (client st) g (after st) (fst (next_fetch (limit st)))
            = ((m, None), c') \<longrightarrow>
        ((\<exists>ms c. body (logged exec) g st = Break ms c) \<longleftrightarrow> length (mems st) + length m < 1000)
      \<and> (stops_after exec g u st \<longleftrightarrow>
           length (mems st) + length m < 1000 \<or> (\<not> u \<and> snd (next_fetch (limit st)) = 0))
      \<and> (length (mems st) + length m < 1000 \<or> (\<not> u \<and> snd (next_fetch (limit st)) = 0) \<longrightarrow>
           loop (logged exec) g u st = Some ((mems st @ m, None), c')))
   \<and> (\<forall>m c'. membersAfter exec c g a (fst (next_fetch n)) = ((m, None), c') \<and> length m < 1000
        \<longrightarrow> MembersAfter (logged exec) (c, []) g a n
              = Some ((m, None), (c', [(g, \<lparr>After = a, Limit = fst (next_fetch n)\<rparr>)])))"
proof (intro conjI allI impI)
  fix m c'
  assume h: "(0 < limit st \<or> u)
        \<and> membersAfter (logged exec) (client st) g (after st) (fst (next_fetch (limit st)))
            = ((m, None), c')"
  then have gd: "0 < limit st \<or> u"
    and p: "membersAfter (logged exec) (client st) g (after st) (fst (next_fetch (limit st)))
            = ((m, None), c')"
    by simp_all
  show "(\<exists>ms c. body (logged exec) g st = Break ms c) \<longleftrightarrow> length (mems st) + length m < 1000"
    by (simp add: body_page [OF p])
  show "stops_after exec g u st \<longleftrightarrow>
           length (mems st) + length m < 1000 \<or> (\<not> u \<and> snd (next_fetch (limit st)) = 0)"
    by (rule stops_after_iff(1) [OF gd p])
  assume "length (mems st) + length m < 1000 \<or> (\<not> u \<and> snd (next_fetch (limit st)) = 0)"
  then show "loop (logged exec) g u st = Some ((mems st @ m, None), c')"
    by (rule stops_after_iff(2) [OF gd p])
next
  fix m c'
  assume h: "membersAfter exec c g a (fst (next_fetch n)) = ((m, None), c') \<and> length m < 1000"
  let ?st = "\<lparr>limit = n, after = a, mems = [], client = (c, [])\<rparr>"
  have "\<not> 1000 < fst (next_fetch n)"
    using fetch_le_1000 [of n] by (simp add: not_less)
  with h have p: "membersAfter (logged exec) (client ?st) g (after ?st) (fst (next_fetch (limit ?st)))
      = ((m, None), (c', [(g, \<lparr>After = a, Limit = fst (next_fetch n)\<rparr>)]))"
    by (simp add: logged_membersAfter)
  have b: "body (logged exec) g ?st = Break m (c', [(g, \<lparr>After = a, Limit = fst (next_fetch n)\<rparr>)])"
    using h by (subst body_page [OF p]) simp
  have gd: "0 < limit ?st \<or> n = 0" by (auto simp add: word_gt_0)
  show "MembersAfter (logged exec) (c, []) g a n
          = Some ((m, None), (c', [(g, \<lparr>After = a, Limit = fst (next_fetch n)\<rparr>)]))"
    using loop_Break [OF gd b] by (simp add: MembersAfter_def)
qed

theorem loop_stops_iff_break_or_limit_consumed_witness:
  "MembersAfter (logged (source (records 1 4))) ((), []) 7 0 0
     = Some ((records 1 4, None), ((), [(7, \<lparr>After = 0, Limit = 1000\<rparr>)]))
   \<and> \<not> (\<exists>ms c. body (logged (source (records 1 2001))) 7
           \<lparr>limit = 500, after = 1000, mems = records 1 1001,
            client = ((), [(7, \<lparr>After = 0, Limit = 1000\<rparr>)])\<rparr> = Break ms c)
   \<and> stops_after (source (records 1 2001)) 7 False
        \<lparr>limit = 500, after = 1000, mems = records 1 1001,
         client = ((), [(7, \<lparr>After = 0, Limit = 1000\<rparr>)])\<rparr>
   \<and> \<not> stops_after (source (records 1 2001)) 7 False
        \<lparr>limit = 1500, after = 0, mems = [], client = ((), [])\<rparr>"
proof -
  let ?st0 = "\<lparr>limit = 1500, after = 0, mems = [], client = ((), [] :: request list)\<rparr>"
  let ?st1 = "\<lparr>limit = 500, after = 1000, mems = records 1 1001,
               client = ((), [(7 :: snowflake, \<lparr>After = 0, Limit = 1000\<rparr>)])\<rparr>"
  have p: "membersAfter (source (records 1 4)) () 7 0 (fst (next_fetch 0))
           = ((records 1 4, None), ()) \<and> length (records 1 4) < 1000"
    using source_page [of 4 0 1000 1 "()" 7]
    by (simp add: next_fetch_zero membersAfter_small length_records)
  have q0: "(0 < limit ?st0 \<or> False)
         \<and> membersAfter (logged (source (records 1 2001))) (client ?st0) 7 (after ?st0)
             (fst (next_fetch (limit ?st0)))
           = ((records 1 1001, None), ((), [(7, \<lparr>After = 0, Limit = 1000\<rparr>)]))"
    using logged_source_page [of 2001 0 1000 1 "()" "[]" 7]
    by (simp add: next_fetch_pos)
  have q1: "(0 < limit ?st1 \<or> False)
         \<and> membersAfter (logged (source (records 1 2001))) (client ?st1) 7 (after ?st1)
             (fst (next_fetch (limit ?st1)))
           = ((records 1001 1501, None),
              ((), [(7, \<lparr>After = 0, Limit = 1000\<rparr>), (7, \<lparr>After = 1000, Limit = 500\<rparr>)]))"
    using logged_source_page [of 2001 1000 500 1 "()" "[(7, \<lparr>After = 0, Limit = 1000\<rparr>)]" 7]
    by (simp add: next_fetch_pos)
  from loop_stops_iff_break_or_limit_consumed [where exec = "source (records 1 4)" and g = 7 and c = "()" and a = 0 and n = 0] p
  have 1: "MembersAfter (logged (source (records 1 4))) ((), []) 7 0 0
     = Some ((records 1 4, None), ((), [(7, \<lparr>After = 0, Limit = 1000\<rparr>)]))"
    by (simp add: next_fetch_zero)
  from loop_stops_iff_break_or_limit_consumed [where exec = "source (records 1 2001)" and st = ?st1 and g = 7 and u = False] q1
  have 2: "((\<exists>ms c. body (logged (source (records 1 2001))) 7 ?st1 = Break ms c)
             \<longleftrightarrow> length (mems ?st1) + length (records 1001 1501) < 1000)
         \<and> (stops_after (source (records 1 2001)) 7 False ?st1 \<longleftrightarrow>
             length (mems ?st1) + length (records 1001 1501) < 1000
             \<or> (\<not> False \<and> snd (next_fetch (limit ?st1)) = 0))"
    by blast
  from loop_stops_iff_break_or_limit_consumed [where exec = "source (records 1 2001)" and st = ?st0 and g = 7 and u = False] q0
  have 3: "stops_after (source (records 1 2001)) 7 False ?st0 \<longleftrightarrow>
             length (mems ?st0) + length (records 1 1001) < 1000
             \<or> (\<not> False \<and> snd (next_fetch (limit ?st0)) = 0)"
    by blast
  from 1 2 3 show ?thesis by (simp add: length_records next_fetch_pos)
qed

text \<open>
  The loop also stops with 1000 records or more: in the run with limit 1500 on 2000
  records, the second iteration leaves 1500 records accumulated, and the loop stops
  there, without a third request, because the limit is consumed.
\<close>

theorem loop_stops_with_1500_accumulated:
  "reach (logged (source (records 1 2001))) 7 False
     \<lparr>limit = 1500, after = 0, mems = [], client = ((), [])\<rparr>
     \<lparr>limit = 500, after = 1000, mems = records 1 1001,
      client = ((), [(7, \<lparr>After = 0, Limit = 1000\<rparr>)])\<rparr>
   \<and> loop (logged (source (records 1 2001))) 7 False
        \<lparr>limit = 500, after = 1000, mems = records 1 1001,
         client = ((), [(7, \<lparr>After = 0, Limit = 1000\<rparr>)])\<rparr>
      = Some ((records 1 1501, None),
              ((), [(7, \<lparr>After = 0, Limit = 1000\<rparr>), (7, \<lparr>After = 1000, Limit = 500\<rparr>)]))
   \<and> \<not> (stops_after (source (records 1 2001)) 7 False
          \<lparr>limit = 500, after = 1000, mems = records 1 1001,
           client = ((), [(7, \<lparr>After = 0, Limit = 1000\<rparr>)])\<rparr>
        \<longleftrightarrow> length (records 1 1501) < 1000)"
proof -
  let ?exec = "logged (source (records 1 2001))"
  let ?r1 = "(7 :: snowflake, \<lparr>After = 0, Limit = 1000\<rparr>)"
  let ?r2 = "(7 :: snowflake, \<lparr>After = 1000, Limit = 500\<rparr>)"
  let ?st1 = "\<lparr>limit = 500, after = 1000, mems = records 1 1001, client = ((), [?r1])\<rparr>"
  let ?st2 = "\<lparr>limit = 0, after = 1000, mems = records 1 1001 @ records 1001 1501,
               client = ((), [?r1, ?r2])\<rparr>"
  have "loop ?exec 7 False ?st1 = loop ?exec 7 False ?st2"
    by (rule loop_Continue [OF _ run_1500_second]) simp
  also have "\<dots> = Some ((mems ?st2, None), client ?st2)"
    by (rule loop_exit) simp
  finally have l: "loop ?exec 7 False ?st1 = Some ((records 1 1501, None), ((), [?r1, ?r2]))"
    using records_append [of 1 1001 1501] by simp
  then have "stops_after (source (records 1 2001)) 7 False ?st1"
    by (simp add: stops_after_def)
  with l run_1500_reach [of 7] show ?thesis
    by (simp add: length_records)
qed

section \<open>The limit bounds the result\<close>

text \<open>
  C6. For every guild, cursor and nonzero limit \<open>n\<close>, and every client whose successful
  pages hold at most the requested number of records, \<^verbatim>\<open>MembersAfter\<close> returns, and
  the sequence it returns (with or without an error) has at most \<open>n\<close> records; the
  accumulated sequence has at most \<open>n\<close> records whenever the loop condition is tested.
\<close>

theorem MembersAfter_length_le_limit:
  "n \<noteq> 0 \<Longrightarrow> honours_limit exec \<Longrightarrow>
   (\<exists>ms e c'. MembersAfter exec c g a n = Some ((ms, e), c') \<and> length ms \<le> unat n)
   \<and> (\<forall>st. reach exec g False \<lparr>limit = n, after = a, mems = [], client = c\<rparr> st
          \<longrightarrow> length (mems st) \<le> unat n)"
proof (intro conjI allI impI)
  assume n: "n \<noteq> 0" and h: "honours_limit exec"
  show "\<exists>ms e c'. MembersAfter exec c g a n = Some ((ms, e), c') \<and> length ms \<le> unat n"
    using bounded_loop_returns [OF h, of "\<lparr>limit = n, after = a, mems = [], client = c\<rparr>" "unat n" g] n
    by (simp add: MembersAfter_def)
  fix st
  assume "reach exec g False \<lparr>limit = n, after = a, mems = [], client = c\<rparr> st"
  from reach_bounded [OF h this] show "length (mems st) \<le> unat n" by simp
qed

theorem MembersAfter_length_le_limit_witness:
  "(1500 :: uint) \<noteq> 0 \<and> honours_limit (logged (source (records 1 2001)))
   \<and> (\<exists>ms e c'. MembersAfter (logged (source (records 1 2001))) ((), []) 7 0 1500
                   = Some ((ms, e), c') \<and> length ms \<le> 1500)
   \<and> reach (logged (source (records 1 2001))) 7 False
        \<lparr>limit = 1500, after = 0, mems = [], client = ((), [])\<rparr>
        \<lparr>limit = 500, after = 1000, mems = records 1 1001,
         client = ((), [(7, \<lparr>After = 0, Limit = 1000\<rparr>)])\<rparr>
   \<and> length (records 1 1001) \<le> 1500"
proof -
  have n: "(1500 :: uint) \<noteq> 0" by simp
  have h: "honours_limit (logged (source (records 1 2001)))"
    by (rule logged_honours_limit [OF source_honours_limit])
  from MembersAfter_length_le_limit [OF n h, of "((), [])" 7 0] run_1500_reach [of 7] n h
  show ?thesis by (simp add: length_records)
qed

section \<open>The request of a single page\<close>

text \<open>
  C9. For every requested size \<open>n\<close>, \<^verbatim>\<open>membersAfter\<close> calls the client with the cursor
  it was given and with the limit \<open>1000\<close> when \<open>n\<close> is above 1000, and \<open>n\<close> itself
  otherwise: the sizes 1 to 1000 and the size 0 are sent as they are.
\<close>

theorem membersAfter_sends_clamped_limit:
  "membersAfter exec c g a n =
     exec c g \<lparr>After = a, Limit = (if 1000 < n then 1000 else n)\<rparr>"
  by (simp add: membersAfter_def Let_def)

section \<open>Bans\<close>

text \<open>
  C10. \<^verbatim>\<open>Ban\<close> reads through \<^verbatim>\<open>data.DeleteDays\<close> before it sends anything. When
  the field is set to \<open>d\<close>, the call does not panic and the client is sent the data with
  7 in place of any \<open>d\<close> above 7, and \<open>d\<close> unchanged from 0 to 7; when the field is
  unset, the call ends in a nil pointer dereference and the client is not called.
\<close>

theorem Ban_dereferences_DeleteDays:
  "(DeleteDays data = Some d \<longrightarrow>
      Ban put c g u data =
        Inr (put c g u (data\<lparr>DeleteDays := Some (if 7 < d then 7 else d)\<rparr>)))
   \<and> (DeleteDays data = None \<longrightarrow> Ban put c g u data = Inl NilPointerDereference)"
  by (cases data) (simp add: Ban_def Let_def)

theorem Ban_dereferences_DeleteDays_witness:
  "Ban (\<lambda>c g u data. (None, data # c)) [] 1 2 \<lparr>DeleteDays = Some 30, Reason = None\<rparr>
     = Inr (None, [\<lparr>DeleteDays = Some 7, Reason = None\<rparr>])
   \<and> Ban (\<lambda>c g u data. (None, data # c)) [] 1 2 \<lparr>DeleteDays = Some 3, Reason = None\<rparr>
     = Inr (None, [\<lparr>DeleteDays = Some 3, Reason = None\<rparr>])
   \<and> Ban (\<lambda>c g u data. (None, data # c)) [] 1 2 \<lparr>DeleteDays = None, Reason = None\<rparr>
     = Inl NilPointerDereference"
  using Ban_dereferences_DeleteDays
      [of "\<lparr>DeleteDays = Some 30, Reason = None\<rparr>" 30 "\<lambda>c g u data. (None, data # c)" "[]" 1 2]
    Ban_dereferences_DeleteDays
      [of "\<lparr>DeleteDays = Some 3, Reason = None\<rparr>" 3 "\<lambda>c g u data. (None, data # c)" "[]" 1 2]
    Ban_dereferences_DeleteDays
      [of "\<lparr>DeleteDays = None, Reason = None\<rparr>" 0 "\<lambda>c g u data. (None, data # c)" "[]" 1 2]
  by simp

end
